theory Spec2Isabelle
  imports Main
begin

section \<open>Python strings\<close>

text \<open>
  A Python \<open>str\<close> is a sequence of Unicode code points, and \<open>len\<close> counts code points.
  A character is modelled by the number of its code point, a string by the list of its
  characters. \<open>py\<close> writes an ASCII literal of the source as such a list.
\<close>

type_synonym pchar = nat
type_synonym pstr = "pchar list"

definition py :: "string \<Rightarrow> pstr" where
  "py s = map of_char s"

definition NL :: pchar where "NL = 10"
definition SP :: pchar where "SP = 32"
definition LT :: pchar where "LT = 60"
definition GT :: pchar where "GT = 62"
definition SLASH :: pchar where "SLASH = 47"

text \<open>
  The characters that \<open>str.split()\<close> and \<open>str.strip()\<close> (both without argument) treat as
  whitespace: those for which \<open>str.isspace\<close> holds in CPython.
\<close>

definition isspace :: "pchar \<Rightarrow> bool" where
  "isspace c \<longleftrightarrow>
     (9 \<le> c \<and> c \<le> 13) \<or> (28 \<le> c \<and> c \<le> 32) \<or> c = 133 \<or> c = 160 \<or> c = 5760 \<or>
     (8192 \<le> c \<and> c \<le> 8202) \<or> c = 8232 \<or> c = 8233 \<or> c = 8239 \<or> c = 8287 \<or> c = 12288"

text \<open>
  The class \<open>\w\<close> of a \<open>str\<close> pattern: the alphanumeric characters of Unicode and the
  underscore. On ASCII these are the letters, the digits and \<open>_\<close>; beyond ASCII the
  table of the Unicode database decides, which is the parameter \<open>U\<close>.
\<close>

definition isword :: "(pchar \<Rightarrow> bool) \<Rightarrow> pchar \<Rightarrow> bool" where
  "isword U c \<longleftrightarrow>
     (if c < 128
      then (48 \<le> c \<and> c \<le> 57) \<or> (65 \<le> c \<and> c \<le> 90) \<or> c = 95 \<or> (97 \<le> c \<and> c \<le> 122)
      else U c)"

subsection \<open>\<open>str.split(sep)\<close>, \<open>sep.join\<close>, \<open>startswith\<close>, \<open>in\<close>, \<open>strip\<close>, \<open>split()\<close>\<close>

text \<open>\<open>s.split('\n')\<close>: one more piece than there are newlines, the empty string gives \<open>['']\<close>.\<close>

fun split_nl :: "pstr \<Rightarrow> pstr list" where
  "split_nl [] = [[]]"
| "split_nl (c # cs) =
     (if c = NL then [] # split_nl cs
      else (case split_nl cs of [] \<Rightarrow> [[c]] | l # ls \<Rightarrow> (c # l) # ls))"

text \<open>\<open>sep.join(parts)\<close>.\<close>

fun join :: "pstr \<Rightarrow> pstr list \<Rightarrow> pstr" where
  "join sep [] = []"
| "join sep [l] = l"
| "join sep (l # l' # ls) = l @ sep @ join sep (l' # ls)"

definition startswith :: "pstr \<Rightarrow> pstr \<Rightarrow> bool" where
  "startswith l p \<longleftrightarrow> take (length p) l = p"

text \<open>\<open>sub in l\<close>: the substring test.\<close>

fun contains :: "pstr \<Rightarrow> pstr \<Rightarrow> bool" where
  "contains sub [] = (sub = [])"
| "contains sub (c # cs) = (startswith (c # cs) sub \<or> contains sub cs)"

definition strip :: "pstr \<Rightarrow> pstr" where
  "strip l = rev (dropWhile isspace (rev (dropWhile isspace l)))"

text \<open>\<open>l.split()\<close>: the maximal runs of characters that are not whitespace.\<close>

function words :: "pstr \<Rightarrow> pstr list" where
  "words [] = []"
| "words (c # cs) =
     (if isspace c then words cs
      else (c # takeWhile (\<lambda>x. \<not> isspace x) cs) # words (dropWhile (\<lambda>x. \<not> isspace x) cs))"
  by pat_completeness auto
termination
  by (relation "measure length") (auto simp: less_Suc_eq_le length_dropWhile_le)

subsection \<open>\<open>re.sub(pattern, '', l)\<close> for the two patterns of the source\<close>

text \<open>
  A match of \<open><[^>]+>\<close> at the head of a string: \<open><\<close>, then the longest run of characters
  other than \<open>>\<close>, which has to be non-empty, then \<open>>\<close>. A shorter run is followed by a
  character other than \<open>>\<close>, so backtracking finds no other match. The result is the
  rest of the string after the match.
\<close>

fun match_tag :: "pstr \<Rightarrow> pstr option" where
  "match_tag [] = None"
| "match_tag (c # cs) =
     (if c = LT \<and> takeWhile (\<lambda>x. x \<noteq> GT) cs \<noteq> [] \<and> dropWhile (\<lambda>x. x \<noteq> GT) cs \<noteq> []
      then Some (tl (dropWhile (\<lambda>x. x \<noteq> GT) cs)) else None)"

text \<open>
  A match of \<open></?\w+>\<close> at the head of a string: \<open><\<close>, an optional \<open>/\<close>, the longest run
  of word characters, non-empty, then \<open>>\<close>. The slash is not a word character, so
  giving up the optional slash finds no other match.
\<close>

definition match_word_run :: "(pchar \<Rightarrow> bool) \<Rightarrow> pstr \<Rightarrow> pstr option" where
  "match_word_run U cs =
     (if takeWhile (isword U) cs \<noteq> [] \<and> dropWhile (isword U) cs \<noteq> []
         \<and> hd (dropWhile (isword U) cs) = GT
      then Some (tl (dropWhile (isword U) cs)) else None)"

fun match_ctag :: "(pchar \<Rightarrow> bool) \<Rightarrow> pstr \<Rightarrow> pstr option" where
  "match_ctag U [] = None"
| "match_ctag U (c # cs) =
     (if c = LT
      then (case cs of
              [] \<Rightarrow> None
            | d # ds \<Rightarrow> if d = SLASH then match_word_run U ds else match_word_run U cs)
      else None)"

text \<open>
  \<open>re.sub(pattern, '', l)\<close>: scan from the left; where the pattern matches, drop the match
  and go on behind it, otherwise keep the character and go on with the next one.
\<close>

function sub_tag :: "pstr \<Rightarrow> pstr" where
  "sub_tag [] = []"
| "sub_tag (c # cs) =
     (case match_tag (c # cs) of
        Some r \<Rightarrow> sub_tag r
      | None \<Rightarrow> c # sub_tag cs)"
  by pat_completeness auto
termination
proof (relation "measure length")
  fix c :: pchar and cs r :: pstr
  assume "match_tag (c # cs) = Some r"
  then have "r = tl (dropWhile (\<lambda>x. x \<noteq> GT) cs)"
    by (simp split: if_splits)
  moreover have "length (dropWhile (\<lambda>x. x \<noteq> GT) cs) \<le> length cs"
    by (rule length_dropWhile_le)
  ultimately show "(r, c # cs) \<in> measure length"
    by simp
qed simp_all

function sub_ctag :: "(pchar \<Rightarrow> bool) \<Rightarrow> pstr \<Rightarrow> pstr" where
  "sub_ctag U [] = []"
| "sub_ctag U (c # cs) =
     (case match_ctag U (c # cs) of
        Some r \<Rightarrow> sub_ctag U r
      | None \<Rightarrow> c # sub_ctag U cs)"
  by pat_completeness auto
termination
proof (relation "measure (\<lambda>(U, s). length s)")
  fix U :: "pchar \<Rightarrow> bool" and c :: pchar and cs r :: pstr
  assume m: "match_ctag U (c # cs) = Some r"
  have le: "length (dropWhile (isword U) xs) \<le> length xs" for xs
    by (rule length_dropWhile_le)
  have "length r \<le> length cs"
  proof (cases cs)
    case Nil
    with m show ?thesis by (simp split: if_splits)
  next
    case (Cons d ds)
    with m have "r = tl (dropWhile (isword U) ds) \<or> r = tl (dropWhile (isword U) cs)"
      by (auto simp: match_word_run_def split: if_splits)
    with le [of ds] le [of cs] Cons show ?thesis
      by auto
  qed
  then show "((U, r), (U, c # cs)) \<in> measure (\<lambda>(U, s). length s)"
    by simp
qed simp_all

section \<open>\<open>clean_vtt_subtitle\<close>\<close>

text \<open>
  The state of the loop over the lines: the list \<open>text_lines\<close> and the set \<open>seen_lines\<close>.
  \<open>step\<close> is one pass through the loop body; each \<open>continue\<close> leaves the state as it is.
\<close>

record loop_state =
  text_lines :: "pstr list"
  seen_lines :: "pstr set"

definition is_header :: "pstr \<Rightarrow> bool" where
  "is_header l \<longleftrightarrow>
     startswith l (py ''WEBVTT'') \<or> startswith l (py ''Kind:'') \<or> startswith l (py ''Language:'')"

definition is_timing :: "pstr \<Rightarrow> bool" where
  "is_timing l \<longleftrightarrow> contains (py ''-->'') l"

definition is_blank :: "pstr \<Rightarrow> bool" where
  "is_blank l \<longleftrightarrow> strip l = []"

definition clean_line :: "(pchar \<Rightarrow> bool) \<Rightarrow> pstr \<Rightarrow> pstr" where
  "clean_line U l = join [SP] (words (sub_ctag U (sub_tag l)))"

definition step :: "(pchar \<Rightarrow> bool) \<Rightarrow> loop_state \<Rightarrow> pstr \<Rightarrow> loop_state" where
  "step U st l =
     (if is_header l then st
      else if is_timing l then st
      else if is_blank l then st
      else if clean_line U l \<noteq> [] \<and> clean_line U l \<notin> seen_lines st
      then st\<lparr>text_lines := text_lines st @ [clean_line U l],
              seen_lines := insert (clean_line U l) (seen_lines st)\<rparr>
      else st)"

definition run_loop :: "(pchar \<Rightarrow> bool) \<Rightarrow> pstr list \<Rightarrow> loop_state" where
  "run_loop U ls = foldl (step U) \<lparr>text_lines = [], seen_lines = {}\<rparr> ls"

definition clean_vtt_subtitle :: "(pchar \<Rightarrow> bool) \<Rightarrow> pstr \<Rightarrow> pstr" where
  "clean_vtt_subtitle U vtt_content =
     join [NL] (text_lines (run_loop U (split_nl vtt_content)))"

text \<open>The statistics of \<open>main\<close>: the line count and the character count of the cleaned text.\<close>

definition line_count :: "pstr \<Rightarrow> nat" where
  "line_count cleaned_text = length (split_nl cleaned_text)"

definition char_count :: "pstr \<Rightarrow> nat" where
  "char_count cleaned_text = length cleaned_text"

definition main_statistics :: "(pchar \<Rightarrow> bool) \<Rightarrow> pstr \<Rightarrow> nat \<times> nat" where
  "main_statistics U vtt_content =
     (let cleaned_text = clean_vtt_subtitle U vtt_content
      in (line_count cleaned_text, char_count cleaned_text))"

section \<open>Notions used to state the properties\<close>

text \<open>The three tests of the loop body that end in \<open>continue\<close>.\<close>

definition discarded :: "pstr \<Rightarrow> bool" where
  "discarded l \<longleftrightarrow> is_header l \<or> is_timing l \<or> is_blank l"

text \<open>
  The cleaned forms, in the order of the input, of the lines that pass the three tests
  and whose cleaned form is not empty: the values that reach the test against
  \<open>seen_lines\<close>.
\<close>

definition candidates :: "(pchar \<Rightarrow> bool) \<Rightarrow> pstr list \<Rightarrow> pstr list" where
  "candidates U ls =
     filter (\<lambda>t. t \<noteq> []) (map (clean_line U) (filter (\<lambda>l. \<not> discarded l) ls))"

text \<open>The elements of a list at the positions where they occur for the first time.\<close>

definition first_occurrences :: "'a list \<Rightarrow> 'a list" where
  "first_occurrences xs =
     map (\<lambda>i. xs ! i) (filter (\<lambda>i. xs ! i \<notin> set (take i xs)) [0..<length xs])"

text \<open>The position at which an element occurs for the first time in a list.\<close>

definition first_index :: "'a list \<Rightarrow> 'a \<Rightarrow> nat" where
  "first_index xs x = length (takeWhile (\<lambda>y. y \<noteq> x) xs)"

text \<open>The lines that \<open>clean_vtt_subtitle\<close> joins: \<open>text_lines\<close> when the loop is over.\<close>

definition emitted :: "(pchar \<Rightarrow> bool) \<Rightarrow> pstr \<Rightarrow> pstr list" where
  "emitted U vtt_content = text_lines (run_loop U (split_nl vtt_content))"

text \<open>Words as \<open>split()\<close> returns them: not empty, and without whitespace.\<close>

definition good_words :: "pstr list \<Rightarrow> bool" where
  "good_words ws \<longleftrightarrow> (\<forall>w\<in>set ws. w \<noteq> [] \<and> (\<forall>c\<in>set w. \<not> isspace c))"

text \<open>A line in which the pattern \<open><[^>]+>\<close> matches at no position.\<close>

fun tag_free :: "pstr \<Rightarrow> bool" where
  "tag_free [] = True"
| "tag_free (c # cs) = (match_tag (c # cs) = None \<and> tag_free cs)"

section \<open>Lines, words and joins\<close>

lemma split_nl_not_Nil: "split_nl s \<noteq> []"
  by (induction s) (auto split: list.splits)

lemma split_nl_no_NL: "l \<in> set (split_nl s) \<Longrightarrow> NL \<notin> set l"
proof (induction s arbitrary: l)
  case Nil
  then show ?case by simp
next
  case (Cons c cs)
  obtain h t where ht: "split_nl cs = h # t"
    using split_nl_not_Nil [of cs] by (cases "split_nl cs") auto
  show ?case
  proof (cases "c = NL")
    case True
    with Cons show ?thesis by auto
  next
    case False
    with Cons.prems ht have "l = c # h \<or> l \<in> set t" by auto
    with Cons.IH [of h] Cons.IH [of l] ht False show ?thesis by auto
  qed
qed

lemma split_nl_plain: "NL \<notin> set l \<Longrightarrow> split_nl l = [l]"
  by (induction l) auto

lemma split_nl_append: "NL \<notin> set l \<Longrightarrow> split_nl (l @ NL # r) = l # split_nl r"
  by (induction l) auto

lemma split_nl_join:
  "ls \<noteq> [] \<Longrightarrow> \<forall>l\<in>set ls. NL \<notin> set l \<Longrightarrow> split_nl (join [NL] ls) = ls"
proof (induction "[NL]" ls rule: join.induct)
  case 1
  then show ?case by simp
next
  case (2 l)
  then show ?case by (simp add: split_nl_plain)
next
  case (3 l l' ls)
  then show ?case by (simp add: split_nl_append)
qed

lemma join_split_nl: "join [NL] (split_nl s) = s"
proof (induction s)
  case Nil
  then show ?case by simp
next
  case (Cons c cs)
  obtain h t where ht: "split_nl cs = h # t"
    using split_nl_not_Nil [of cs] by (cases "split_nl cs") auto
  with Cons show ?case
    by (cases t) auto
qed

lemma join_Nil_iff: "join sep ls = [] \<longleftrightarrow> (\<forall>l\<in>set ls. l = []) \<and> (sep = [] \<or> length ls \<le> 1)"
  by (induction sep ls rule: join.induct) auto

lemma words_props: "w \<in> set (words s) \<Longrightarrow> w \<noteq> [] \<and> (\<forall>c\<in>set w. \<not> isspace c)"
proof (induction s arbitrary: w rule: words.induct)
  case 1
  then show ?case by simp
next
  case (2 c cs)
  show ?case
  proof (cases "isspace c")
    case True
    with 2 show ?thesis by simp
  next
    case False
    with "2.prems" have "w = c # takeWhile (\<lambda>x. \<not> isspace x) cs
        \<or> w \<in> set (words (dropWhile (\<lambda>x. \<not> isspace x) cs))"
      by simp
    then show ?thesis
    proof
      assume "w = c # takeWhile (\<lambda>x. \<not> isspace x) cs"
      with False show ?thesis by (auto dest: set_takeWhileD)
    next
      assume "w \<in> set (words (dropWhile (\<lambda>x. \<not> isspace x) cs))"
      with "2.IH"(2) False show ?thesis by blast
    qed
  qed
qed

lemma words_Nil_iff: "words s = [] \<longleftrightarrow> (\<forall>c\<in>set s. isspace c)"
  by (induction s rule: words.induct) auto

lemma dropWhile_all_iff: "(\<forall>x\<in>set (dropWhile P s). P x) \<longleftrightarrow> (\<forall>x\<in>set s. P x)"
proof
  assume a: "\<forall>x\<in>set (dropWhile P s). P x"
  have "dropWhile P s = []"
  proof (rule ccontr)
    assume n: "dropWhile P s \<noteq> []"
    then have "\<not> P (hd (dropWhile P s))" by (rule hd_dropWhile)
    moreover from n have "hd (dropWhile P s) \<in> set (dropWhile P s)" by simp
    ultimately show False using a by blast
  qed
  then show "\<forall>x\<in>set s. P x" by (simp add: dropWhile_eq_Nil_conv)
next
  assume "\<forall>x\<in>set s. P x"
  then show "\<forall>x\<in>set (dropWhile P s). P x" by (auto dest: set_dropWhileD)
qed

lemma strip_Nil_iff: "strip s = [] \<longleftrightarrow> (\<forall>c\<in>set s. isspace c)"
  by (simp add: strip_def dropWhile_eq_Nil_conv dropWhile_all_iff)

lemma words_single: "w \<noteq> [] \<Longrightarrow> \<forall>c\<in>set w. \<not> isspace c \<Longrightarrow> words w = [w]"
proof (cases w)
  case Nil
  assume "w \<noteq> []"
  with Nil show ?thesis by simp
next
  case (Cons a list)
  assume "\<forall>c\<in>set w. \<not> isspace c"
  with Cons have a: "\<not> isspace a" and l: "\<forall>c\<in>set list. \<not> isspace c"
    by simp_all
  from l have "dropWhile (\<lambda>x. \<not> isspace x) list = []"
    and "takeWhile (\<lambda>x. \<not> isspace x) list = list"
    by simp_all
  with a Cons show ?thesis
    by (simp del: dropWhile_eq_Nil_conv takeWhile_eq_all_conv)
qed

lemma words_word:
  "w \<noteq> [] \<Longrightarrow> \<forall>c\<in>set w. \<not> isspace c \<Longrightarrow> isspace d \<Longrightarrow> words (w @ d # r) = w # words r"
  by (cases w) (auto simp: takeWhile_append2 dropWhile_append2)

lemma isspace_SP: "isspace SP"
  by (simp add: isspace_def SP_def)

lemma words_join:
  "\<forall>w\<in>set ws. w \<noteq> [] \<and> (\<forall>c\<in>set w. \<not> isspace c) \<Longrightarrow> words (join [SP] ws) = ws"
proof (induction "[SP]" ws rule: join.induct)
  case 1
  then show ?case by simp
next
  case (2 l)
  then show ?case by (simp add: words_single)
next
  case (3 l l' ls)
  then show ?case by (simp add: words_word isspace_SP)
qed

section \<open>The loop over the lines\<close>

lemma first_occurrences_Nil: "first_occurrences [] = []"
  by (simp add: first_occurrences_def)

lemma first_occurrences_snoc:
  "first_occurrences (xs @ [x]) = first_occurrences xs @ (if x \<in> set xs then [] else [x])"
proof -
  have a: "filter (\<lambda>i. (xs @ [x]) ! i \<notin> set (take i (xs @ [x]))) [0..<length xs]
      = filter (\<lambda>i. xs ! i \<notin> set (take i xs)) [0..<length xs]"
    by (rule filter_cong) (auto simp: nth_append)
  have b: "map (\<lambda>i. (xs @ [x]) ! i) (filter (\<lambda>i. xs ! i \<notin> set (take i xs)) [0..<length xs])
      = map (\<lambda>i. xs ! i) (filter (\<lambda>i. xs ! i \<notin> set (take i xs)) [0..<length xs])"
    by (rule map_cong) (auto simp: nth_append)
  have c: "take (length xs) (xs @ [x]) = xs"
    by simp
  show ?thesis
    by (simp add: first_occurrences_def a b c del: take_append)
qed

lemma first_occurrences_set: "set (first_occurrences xs) = set xs"
  by (induction xs rule: rev_induct) (auto simp: first_occurrences_Nil first_occurrences_snoc)

lemma first_occurrences_distinct: "distinct (first_occurrences xs)"
  by (induction xs rule: rev_induct)
    (auto simp: first_occurrences_Nil first_occurrences_snoc first_occurrences_set)

lemma first_occurrences_id: "distinct xs \<Longrightarrow> first_occurrences xs = xs"
  by (induction xs rule: rev_induct) (auto simp: first_occurrences_Nil first_occurrences_snoc)

lemma candidates_snoc:
  "candidates U (ls @ [l]) =
     candidates U ls @ (if \<not> discarded l \<and> clean_line U l \<noteq> [] then [clean_line U l] else [])"
  by (simp add: candidates_def)

lemma run_loop_eq:
  "run_loop U ls =
     \<lparr>text_lines = first_occurrences (candidates U ls), seen_lines = set (candidates U ls)\<rparr>"
proof (induction ls rule: rev_induct)
  case Nil
  show ?case by (simp add: run_loop_def candidates_def first_occurrences_Nil)
next
  case (snoc l ls)
  have "run_loop U (ls @ [l]) = step U (run_loop U ls) l"
    by (simp add: run_loop_def)
  with snoc show ?case
    by (auto simp: step_def candidates_snoc first_occurrences_snoc discarded_def)
qed

lemma emitted_eq: "emitted U s = first_occurrences (candidates U (split_nl s))"
  by (simp add: emitted_def run_loop_eq)

lemma clean_eq: "clean_vtt_subtitle U s = join [NL] (emitted U s)"
  by (simp add: clean_vtt_subtitle_def emitted_def)

lemma candidates_Nil_iff:
  "candidates U ls = [] \<longleftrightarrow> (\<forall>l\<in>set ls. discarded l \<or> clean_line U l = [])"
  by (auto simp: candidates_def filter_empty_conv)

lemma emitted_Nil_iff:
  "emitted U s = [] \<longleftrightarrow> (\<forall>l\<in>set (split_nl s). discarded l \<or> clean_line U l = [])"
proof -
  have "emitted U s = [] \<longleftrightarrow> set (emitted U s) = {}" by simp
  also have "\<dots> \<longleftrightarrow> candidates U (split_nl s) = []"
    by (simp add: emitted_eq first_occurrences_set)
  finally show ?thesis by (simp add: candidates_Nil_iff)
qed

section \<open>Prefixes, substrings and joined words\<close>

lemma startswith_iff: "startswith l p \<longleftrightarrow> (\<exists>ys. l = p @ ys)"
proof
  assume "startswith l p"
  then have "l = p @ drop (length p) l"
    by (metis append_take_drop_id startswith_def)
  then show "\<exists>ys. l = p @ ys" ..
next
  assume "\<exists>ys. l = p @ ys"
  then show "startswith l p" by (auto simp: startswith_def)
qed

lemma contains_iff: "contains sub l \<longleftrightarrow> (\<exists>xs ys. l = xs @ sub @ ys)"
proof (induction l)
  case Nil
  then show ?case by auto
next
  case (Cons c cs)
  show ?case
  proof
    assume "contains sub (c # cs)"
    then have "startswith (c # cs) sub \<or> contains sub cs" by simp
    then show "\<exists>xs ys. c # cs = xs @ sub @ ys"
    proof
      assume "startswith (c # cs) sub"
      then obtain ys where "c # cs = sub @ ys" by (auto simp: startswith_iff)
      then have "c # cs = [] @ sub @ ys" by simp
      then show ?thesis by blast
    next
      assume "contains sub cs"
      with Cons obtain xs ys where "cs = xs @ sub @ ys" by blast
      then have "c # cs = (c # xs) @ sub @ ys" by simp
      then show ?thesis by blast
    qed
  next
    assume "\<exists>xs ys. c # cs = xs @ sub @ ys"
    then obtain xs ys where e: "c # cs = xs @ sub @ ys" by blast
    show "contains sub (c # cs)"
    proof (cases xs)
      case Nil
      with e have "startswith (c # cs) sub" by (auto simp: startswith_iff)
      then show ?thesis by simp
    next
      case (Cons x xs')
      with e have "cs = xs' @ sub @ ys" by simp
      with Cons.IH have "contains sub cs" by blast
      then show ?thesis by simp
    qed
  qed
qed

lemma join_set: "set (join sep ls) \<subseteq> set sep \<union> \<Union> (set ` set ls)"
  by (induction sep ls rule: join.induct) auto

lemma join_hd: "ls \<noteq> [] \<Longrightarrow> hd ls \<noteq> [] \<Longrightarrow> hd (join sep ls) = hd (hd ls)"
  by (induction sep ls rule: join.induct) auto

lemma join_last_not_Nil: "ls \<noteq> [] \<Longrightarrow> last ls \<noteq> [] \<Longrightarrow> join sep ls \<noteq> []"
  by (induction sep ls rule: join.induct) auto

lemma join_last: "ls \<noteq> [] \<Longrightarrow> last ls \<noteq> [] \<Longrightarrow> last (join sep ls) = last (last ls)"
proof (induction sep ls rule: join.induct)
  case (3 sep l l' ls)
  then have "join sep (l' # ls) \<noteq> []"
    using join_last_not_Nil [of "l' # ls" sep] by simp
  with 3 show ?case by simp
qed simp_all

lemma join_not_Nil: "ls \<noteq> [] \<Longrightarrow> \<forall>l\<in>set ls. l \<noteq> [] \<Longrightarrow> join sep ls \<noteq> []"
  by (induction sep ls rule: join.induct) auto

lemma no_double_plain: "SP \<notin> set w \<Longrightarrow> \<not> contains [SP, SP] w"
  by (auto simp: contains_iff)

lemma no_double_append:
  "SP \<notin> set w \<Longrightarrow> contains [SP, SP] (w @ SP # r) \<longleftrightarrow> (r \<noteq> [] \<and> hd r = SP) \<or> contains [SP, SP] r"
proof (induction w)
  case Nil
  show ?case by (cases r) (auto simp: startswith_def)
next
  case (Cons c w)
  then show ?case by (auto simp: startswith_def)
qed

lemma good_words_words: "good_words (words s)"
  using words_props by (auto simp: good_words_def)

lemma join_no_double: "good_words ws \<Longrightarrow> \<not> contains [SP, SP] (join [SP] ws)"
proof (induction "[SP]" ws rule: join.induct)
  case 1
  show ?case by simp
next
  case (2 l)
  then have "SP \<notin> set l" using isspace_SP by (auto simp: good_words_def)
  then show ?case by (simp add: no_double_plain)
next
  case (3 l l' ls)
  from "3.prems" have l: "SP \<notin> set l" and l': "l' \<noteq> []" "\<not> isspace (hd l')"
    and g: "good_words (l' # ls)"
    using isspace_SP by (auto simp: good_words_def)
  from l' have "hd (join [SP] (l' # ls)) = hd l'"
    by (simp add: join_hd)
  with l' isspace_SP have "hd (join [SP] (l' # ls)) \<noteq> SP" by auto
  with "3.hyps" g l show ?case
    by (simp add: no_double_append)
qed

section \<open>Cleaned lines and the lines of the output\<close>

lemma isspace_NL: "isspace NL"
  by (simp add: isspace_def NL_def)

lemma join_words_hd: "join [SP] (words x) \<noteq> [] \<Longrightarrow> \<not> isspace (hd (join [SP] (words x)))"
proof -
  assume n: "join [SP] (words x) \<noteq> []"
  then have w: "words x \<noteq> []" by auto
  then have "hd (words x) \<in> set (words x)" by simp
  then have h: "hd (words x) \<noteq> []" "\<not> isspace (hd (hd (words x)))"
    using words_props by auto
  with w show ?thesis by (simp add: join_hd)
qed

lemma join_words_last: "join [SP] (words x) \<noteq> [] \<Longrightarrow> \<not> isspace (last (join [SP] (words x)))"
proof -
  assume n: "join [SP] (words x) \<noteq> []"
  then have w: "words x \<noteq> []" by auto
  then have "last (words x) \<in> set (words x)" by simp
  then have h: "last (words x) \<noteq> []" "\<not> isspace (last (last (words x)))"
    using words_props by auto
  with w show ?thesis by (simp add: join_last)
qed

lemma join_words_space: "c \<in> set (join [SP] (words x)) \<Longrightarrow> isspace c \<Longrightarrow> c = SP"
proof -
  assume c: "c \<in> set (join [SP] (words x))" and s: "isspace c"
  from c join_set [of "[SP]" "words x"]
  have "c = SP \<or> (\<exists>w\<in>set (words x). c \<in> set w)" by auto
  with s words_props show "c = SP" by blast
qed

lemma clean_line_hd: "clean_line U l \<noteq> [] \<Longrightarrow> \<not> isspace (hd (clean_line U l))"
  unfolding clean_line_def by (rule join_words_hd)

lemma clean_line_last: "clean_line U l \<noteq> [] \<Longrightarrow> \<not> isspace (last (clean_line U l))"
  unfolding clean_line_def by (rule join_words_last)

lemma clean_line_space: "c \<in> set (clean_line U l) \<Longrightarrow> isspace c \<Longrightarrow> c = SP"
  unfolding clean_line_def by (rule join_words_space)

lemma clean_line_no_double: "\<not> contains [SP, SP] (clean_line U l)"
  unfolding clean_line_def by (rule join_no_double) (rule good_words_words)

lemma clean_line_no_NL: "NL \<notin> set (clean_line U l)"
  using clean_line_space [of NL U l] isspace_NL by (auto simp: NL_def SP_def)

lemma emitted_iff:
  "t \<in> set (emitted U s) \<longleftrightarrow>
     t \<noteq> [] \<and> (\<exists>l\<in>set (split_nl s). \<not> discarded l \<and> t = clean_line U l)"
  by (auto simp: emitted_eq first_occurrences_set candidates_def)

lemma emitted_no_NL: "t \<in> set (emitted U s) \<Longrightarrow> NL \<notin> set t"
  by (auto simp: emitted_iff clean_line_no_NL)

lemma split_clean:
  "split_nl (clean_vtt_subtitle U s) = (if emitted U s = [] then [[]] else emitted U s)"
  by (simp add: clean_eq split_nl_join emitted_no_NL)

lemma clean_Nil_iff: "clean_vtt_subtitle U s = [] \<longleftrightarrow> emitted U s = []"
proof
  assume c: "clean_vtt_subtitle U s = []"
  show "emitted U s = []"
  proof (rule ccontr)
    assume n: "emitted U s \<noteq> []"
    moreover have "\<forall>t\<in>set (emitted U s). t \<noteq> []" by (simp add: emitted_iff)
    ultimately have "join [NL] (emitted U s) \<noteq> []" by (rule join_not_Nil)
    with c show False by (simp add: clean_eq)
  qed
next
  assume "emitted U s = []"
  then show "clean_vtt_subtitle U s = []" by (simp add: clean_eq)
qed

lemma step_discarded: "discarded l \<Longrightarrow> step U st l = st"
  by (auto simp: step_def discarded_def)

lemma clean_no_blank_line_aux:
  "ls \<noteq> [] \<Longrightarrow> \<forall>l\<in>set ls. l \<noteq> [] \<and> NL \<notin> set l \<Longrightarrow>
     hd (join [NL] ls) \<noteq> NL \<and> last (join [NL] ls) \<noteq> NL \<and> \<not> contains [NL, NL] (join [NL] ls)"
proof (induction "[NL]" ls rule: join.induct)
  case 1
  then show ?case by simp
next
  case (2 l)
  then have "l \<noteq> []" "NL \<notin> set l" by simp_all
  moreover from this have "hd l \<noteq> NL" "last l \<noteq> NL"
    by (metis hd_in_set, metis last_in_set)
  moreover from \<open>NL \<notin> set l\<close> have "\<not> contains [NL, NL] l"
    by (auto simp: contains_iff)
  ultimately show ?case by simp
next
  case (3 l l' ls)
  from "3.prems" have l: "l \<noteq> []" "NL \<notin> set l" by simp_all
  then have hl: "hd l \<noteq> NL" by (metis hd_in_set)
  from "3.prems" "3.hyps" have ih: "hd (join [NL] (l' # ls)) \<noteq> NL"
    "last (join [NL] (l' # ls)) \<noteq> NL" "\<not> contains [NL, NL] (join [NL] (l' # ls))"
    by simp_all
  from "3.prems" have n: "join [NL] (l' # ls) \<noteq> []"
    using join_not_Nil [of "l' # ls" "[NL]"] by simp
  have "\<not> contains [NL, NL] (l @ NL # join [NL] (l' # ls))"
  proof
    assume "contains [NL, NL] (l @ NL # join [NL] (l' # ls))"
    then obtain xs ys where e: "l @ NL # join [NL] (l' # ls) = xs @ [NL, NL] @ ys"
      by (auto simp: contains_iff)
    have "takeWhile (\<lambda>c. c \<noteq> NL) (l @ NL # join [NL] (l' # ls)) = l"
      using l by (auto simp: takeWhile_tail)
    moreover have "length (takeWhile (\<lambda>c. c \<noteq> NL) (xs @ [NL, NL] @ ys)) \<le> length xs"
      by (induction xs) auto
    ultimately have le: "length l \<le> length xs" using e by simp
    then obtain zs where xs: "xs = l @ zs"
      using e by (metis append_eq_append_conv_if append_take_drop_id)
    with e have z: "NL # join [NL] (l' # ls) = zs @ [NL, NL] @ ys" by simp
    show False
    proof (cases zs)
      case Nil
      with z have "hd (join [NL] (l' # ls)) = NL" by auto
      with ih show False by simp
    next
      case (Cons a as)
      with z have "join [NL] (l' # ls) = as @ [NL, NL] @ ys" by simp
      then have "contains [NL, NL] (join [NL] (l' # ls))"
        unfolding contains_iff by blast
      with ih show False by simp
    qed
  qed
  with l hl ih n show ?case by simp
qed

section \<open>The two tag patterns\<close>

text \<open>
  What the two matchers accept, in the words of the patterns: the match at a position
  is unique, so the order in which the engine tries the alternatives does not matter.
\<close>

lemma isword_not_GT: "isword U c \<Longrightarrow> c \<noteq> GT"
  by (auto simp: isword_def GT_def split: if_splits)

lemma isword_not_SLASH: "\<not> isword U SLASH"
  by (simp add: isword_def SLASH_def)

lemma match_tag_Some_iff:
  "match_tag s = Some r \<longleftrightarrow> (\<exists>xs. xs \<noteq> [] \<and> GT \<notin> set xs \<and> s = LT # xs @ GT # r)"
proof
  assume m: "match_tag s = Some r"
  then obtain c cs where s: "s = c # cs" by (cases s) auto
  let ?t = "takeWhile (\<lambda>x. x \<noteq> GT) cs" and ?d = "dropWhile (\<lambda>x. x \<noteq> GT) cs"
  from m s have c: "c = LT" and t: "?t \<noteq> []" and d: "?d \<noteq> []" and r: "r = tl ?d"
    by (auto split: if_splits)
  from d have "hd ?d = GT" using hd_dropWhile [of "\<lambda>x. x \<noteq> GT" cs] by auto
  with d r have "?d = GT # r" by (cases ?d) auto
  then have "cs = ?t @ GT # r"
    using takeWhile_dropWhile_id [of "\<lambda>x. x \<noteq> GT" cs] by simp
  moreover have "GT \<notin> set ?t" by (auto dest: set_takeWhileD)
  ultimately show "\<exists>xs. xs \<noteq> [] \<and> GT \<notin> set xs \<and> s = LT # xs @ GT # r"
    using s c t by blast
next
  assume "\<exists>xs. xs \<noteq> [] \<and> GT \<notin> set xs \<and> s = LT # xs @ GT # r"
  then obtain xs where xs: "xs \<noteq> []" "GT \<notin> set xs" and s: "s = LT # xs @ GT # r" by blast
  from xs have "takeWhile (\<lambda>x. x \<noteq> GT) (xs @ GT # r) = xs"
    and "dropWhile (\<lambda>x. x \<noteq> GT) (xs @ GT # r) = GT # r"
    by (auto simp: takeWhile_tail dropWhile_append3)
  with s xs show "match_tag s = Some r"
    by (simp del: takeWhile_eq_Nil_iff dropWhile_eq_Nil_conv)
qed

lemma match_word_run_Some_iff:
  "match_word_run U s = Some r \<longleftrightarrow> (\<exists>xs. xs \<noteq> [] \<and> (\<forall>x\<in>set xs. isword U x) \<and> s = xs @ GT # r)"
proof
  assume m: "match_word_run U s = Some r"
  let ?t = "takeWhile (isword U) s" and ?d = "dropWhile (isword U) s"
  from m have t: "?t \<noteq> []" and d: "?d \<noteq> []" and h: "hd ?d = GT" and r: "r = tl ?d"
    by (auto simp: match_word_run_def split: if_splits)
  from d h r have "?d = GT # r" by (cases ?d) auto
  then have "s = ?t @ GT # r"
    using takeWhile_dropWhile_id [of "isword U" s] by simp
  moreover have "\<forall>x\<in>set ?t. isword U x" by (auto dest: set_takeWhileD)
  ultimately show "\<exists>xs. xs \<noteq> [] \<and> (\<forall>x\<in>set xs. isword U x) \<and> s = xs @ GT # r"
    using t by blast
next
  assume "\<exists>xs. xs \<noteq> [] \<and> (\<forall>x\<in>set xs. isword U x) \<and> s = xs @ GT # r"
  then obtain xs where xs: "xs \<noteq> []" "\<forall>x\<in>set xs. isword U x" and s: "s = xs @ GT # r"
    by blast
  have g: "\<not> isword U GT" using isword_not_GT by blast
  with xs have "takeWhile (isword U) (xs @ GT # r) = xs"
    and "dropWhile (isword U) (xs @ GT # r) = GT # r"
    by (auto simp: takeWhile_tail dropWhile_append3)
  with s xs show "match_word_run U s = Some r"
    by (simp add: match_word_run_def del: takeWhile_eq_Nil_iff dropWhile_eq_Nil_conv)
qed

lemma match_ctag_Some_iff:
  "match_ctag U s = Some r \<longleftrightarrow>
     (\<exists>xs. xs \<noteq> [] \<and> (\<forall>x\<in>set xs. isword U x) \<and>
        (s = LT # SLASH # xs @ GT # r \<or> s = LT # xs @ GT # r))"
proof (cases s)
  case Nil
  then show ?thesis by simp
next
  case (Cons c cs)
  show ?thesis
  proof (cases cs)
    case Nil
    with Cons show ?thesis by auto
  next
    case (Cons d ds)
    have n: "\<not> (\<exists>xs. xs \<noteq> [] \<and> (\<forall>x\<in>set xs. isword U x) \<and> SLASH # ds = xs @ GT # r)"
    proof
      assume "\<exists>xs. xs \<noteq> [] \<and> (\<forall>x\<in>set xs. isword U x) \<and> SLASH # ds = xs @ GT # r"
      then obtain xs where "xs \<noteq> []" "\<forall>x\<in>set xs. isword U x" "SLASH # ds = xs @ GT # r"
        by blast
      then have "isword U SLASH" by (cases xs) auto
      then show False by (simp add: isword_not_SLASH)
    qed
    show ?thesis
    proof (cases "d = SLASH")
      case True
      with Cons \<open>s = c # cs\<close> n show ?thesis
        by (auto simp: match_word_run_Some_iff)
    next
      case False
      with Cons \<open>s = c # cs\<close> show ?thesis
        by (auto simp: match_word_run_Some_iff)
    qed
  qed
qed

lemma match_ctag_imp_match_tag: "match_ctag U s = Some r \<Longrightarrow> match_tag s = Some r"
proof -
  assume "match_ctag U s = Some r"
  then obtain xs where xs: "xs \<noteq> []" "\<forall>x\<in>set xs. isword U x"
    and s: "s = LT # SLASH # xs @ GT # r \<or> s = LT # xs @ GT # r"
    by (auto simp: match_ctag_Some_iff)
  from xs have g: "GT \<notin> set xs" using isword_not_GT by blast
  from s show ?thesis
  proof
    assume "s = LT # SLASH # xs @ GT # r"
    then have "s = LT # (SLASH # xs) @ GT # r" by simp
    moreover from g have "GT \<notin> set (SLASH # xs)" by (simp add: GT_def SLASH_def)
    ultimately show ?thesis unfolding match_tag_Some_iff by blast
  next
    assume "s = LT # xs @ GT # r"
    with xs g show ?thesis unfolding match_tag_Some_iff by blast
  qed
qed

lemma match_tag_None_iff:
  "match_tag (c # cs) = None \<longleftrightarrow> c \<noteq> LT \<or> cs = [] \<or> hd cs = GT \<or> GT \<notin> set cs"
proof (cases cs)
  case Nil
  then show ?thesis by simp
next
  case (Cons d ds)
  then show ?thesis by (auto simp: dropWhile_eq_Nil_conv)
qed

lemma match_tag_rest_set: "match_tag s = Some r \<Longrightarrow> set r \<subseteq> set s"
  by (auto simp: match_tag_Some_iff)

lemma sub_tag_set: "set (sub_tag s) \<subseteq> set s"
proof (induction s rule: sub_tag.induct)
  case 1
  show ?case by simp
next
  case (2 c cs)
  show ?case
  proof (cases "match_tag (c # cs)")
    case None
    with 2 show ?thesis by (auto simp del: match_tag.simps)
  next
    case (Some r)
    with 2 have "set (sub_tag r) \<subseteq> set r" by simp
    with Some match_tag_rest_set [OF Some] show ?thesis
      by (auto simp del: match_tag.simps)
  qed
qed

lemma sub_tag_Cons_GT: "sub_tag (GT # cs) = GT # sub_tag cs"
  by (simp add: GT_def LT_def)

lemma tag_free_sub_tag: "tag_free (sub_tag s)"
proof (induction s rule: sub_tag.induct)
  case 1
  show ?case by simp
next
  case (2 c cs)
  show ?case
  proof (cases "match_tag (c # cs)")
    case (Some r)
    with 2 show ?thesis by (simp del: match_tag.simps)
  next
    case None
    with 2 have ih: "tag_free (sub_tag cs)" by simp
    from None have "c \<noteq> LT \<or> cs = [] \<or> hd cs = GT \<or> GT \<notin> set cs"
      by (simp only: match_tag_None_iff)
    then have "c \<noteq> LT \<or> sub_tag cs = [] \<or> hd (sub_tag cs) = GT \<or> GT \<notin> set (sub_tag cs)"
    proof (elim disjE)
      assume "hd cs = GT"
      show ?thesis
      proof (cases cs)
        case Nil
        then show ?thesis by simp
      next
        case (Cons d ds)
        with \<open>hd cs = GT\<close> have "cs = GT # ds" by simp
        then show ?thesis by (simp only: sub_tag_Cons_GT list.sel simp_thms)
      qed
    next
      assume "GT \<notin> set cs"
      with sub_tag_set [of cs] show ?thesis by blast
    qed simp_all
    then have "match_tag (c # sub_tag cs) = None"
      by (simp only: match_tag_None_iff)
    with None ih show ?thesis by (simp del: match_tag.simps)
  qed
qed

lemma sub_tag_id: "tag_free s \<Longrightarrow> sub_tag s = s"
  by (induction s) (simp_all del: match_tag.simps)

lemma sub_ctag_id: "tag_free s \<Longrightarrow> sub_ctag U s = s"
proof (induction s)
  case Nil
  show ?case by simp
next
  case (Cons c cs)
  then have "match_tag (c # cs) = None" by (simp del: match_tag.simps)
  then have "match_ctag U (c # cs) = None"
    using match_ctag_imp_match_tag [of U "c # cs"] by (cases "match_ctag U (c # cs)") auto
  with Cons show ?case by (simp del: match_tag.simps match_ctag.simps)
qed

section \<open>Whitespace collapsing keeps a line free of tags\<close>

lemma join_Cons_Cons: "join sep ((c # w) # rest) = c # join sep (w # rest)"
  by (cases rest) simp_all

lemma join_words_Nil_iff: "join [SP] (words x) = [] \<longleftrightarrow> words x = []"
proof
  assume j: "join [SP] (words x) = []"
  show "words x = []"
  proof (rule ccontr)
    assume "words x \<noteq> []"
    moreover have "\<forall>w\<in>set (words x). w \<noteq> []" using words_props by blast
    ultimately have "join [SP] (words x) \<noteq> []" by (rule join_not_Nil)
    with j show False by simp
  qed
next
  assume "words x = []"
  then show "join [SP] (words x) = []" by simp
qed

lemma collapse_space: "isspace c \<Longrightarrow> join [SP] (words (c # cs)) = join [SP] (words cs)"
  by simp

lemma collapse_last: "\<not> isspace c \<Longrightarrow> join [SP] (words [c]) = [c]"
  by simp

lemma collapse_before_space:
  "\<not> isspace c \<Longrightarrow> isspace d \<Longrightarrow>
     join [SP] (words (c # d # ds)) =
       (if join [SP] (words (d # ds)) = [] then [c] else c # SP # join [SP] (words (d # ds)))"
proof -
  assume c: "\<not> isspace c" and d: "isspace d"
  then have w: "words (c # d # ds) = [c] # words (d # ds)" by simp
  show ?thesis
  proof (cases "words (d # ds)")
    case Nil
    then have "join [SP] (words (c # d # ds)) = [c]" "join [SP] (words (d # ds)) = []"
      by (simp_all only: w join.simps)
    then show ?thesis by (simp del: words.simps)
  next
    case (Cons v vs)
    then have "words (d # ds) \<noteq> []"
      by (simp del: words.simps)
    then have n: "join [SP] (words (d # ds)) \<noteq> []"
      by (simp only: join_words_Nil_iff not_False_eq_True)
    from Cons have "join [SP] (words (c # d # ds)) = [c] @ [SP] @ join [SP] (words (d # ds))"
      by (simp only: w join.simps)
    with n show ?thesis by (simp del: words.simps)
  qed
qed

lemma collapse_before_char:
  "\<not> isspace c \<Longrightarrow> \<not> isspace d \<Longrightarrow>
     join [SP] (words (c # d # ds)) = c # join [SP] (words (d # ds))"
  by (simp add: join_Cons_Cons)

lemma collapse_set: "set (join [SP] (words x)) \<subseteq> insert SP (set x)"
proof -
  have "\<Union> (set ` set (words x)) \<subseteq> set x"
  proof (induction x rule: words.induct)
    case 1
    show ?case by simp
  next
    case (2 c cs)
    show ?case
    proof (cases "isspace c")
      case True
      with 2 show ?thesis by auto
    next
      case False
      with "2.IH"(2) have "\<Union> (set ` set (words (dropWhile (\<lambda>x. \<not> isspace x) cs))) \<subseteq> set cs"
        using set_dropWhileD by fastforce
      with False show ?thesis by (auto dest: set_takeWhileD)
    qed
  qed
  with join_set [of "[SP]" "words x"] show ?thesis by auto
qed

lemma collapse_hd: "\<not> isspace d \<Longrightarrow> hd (join [SP] (words (d # ds))) = d"
  by (simp add: join_hd)

lemma tag_free_Cons:
  "tag_free (c # r) \<longleftrightarrow> (c \<noteq> LT \<or> r = [] \<or> hd r = GT \<or> GT \<notin> set r) \<and> tag_free r"
  by (simp only: tag_free.simps match_tag_None_iff)

lemma isspace_not_tag: "isspace c \<Longrightarrow> c \<noteq> LT \<and> c \<noteq> GT"
  by (auto simp: isspace_def LT_def GT_def)

lemma tag_free_collapse: "tag_free x \<Longrightarrow> tag_free (join [SP] (words x))"
proof (induction x)
  case Nil
  show ?case by simp
next
  case (Cons c cs)
  from Cons.prems have t: "c \<noteq> LT \<or> cs = [] \<or> hd cs = GT \<or> GT \<notin> set cs"
    and "tag_free cs"
    by (simp_all only: tag_free_Cons)
  with Cons.IH have ih: "tag_free (join [SP] (words cs))" by simp
  have sp: "SP \<noteq> LT" "SP \<noteq> GT" by (simp_all add: SP_def LT_def GT_def)
  show ?case
  proof (cases "isspace c")
    case True
    with ih show ?thesis by (simp only: collapse_space)
  next
    case False
    show ?thesis
    proof (cases cs)
      case Nil
      with False show ?thesis by (simp add: tag_free_Cons)
    next
      case (Cons d ds)
      show ?thesis
      proof (cases "isspace d")
        case True
        have g: "GT \<notin> set cs \<Longrightarrow> GT \<notin> set (join [SP] (words cs))"
          using collapse_set [of cs] sp by auto
        from True Cons t isspace_not_tag [of d]
        have "c \<noteq> LT \<or> GT \<notin> set (join [SP] (words cs))"
          using g by auto
        with ih sp have tf: "tag_free (c # SP # join [SP] (words cs))" "tag_free [c]"
          by (auto simp: tag_free_Cons)
        from False True have "join [SP] (words (c # d # ds)) =
            (if join [SP] (words (d # ds)) = [] then [c]
             else c # SP # join [SP] (words (d # ds)))"
          by (rule collapse_before_space)
        then have e: "join [SP] (words (c # cs)) =
            (if join [SP] (words cs) = [] then [c] else c # SP # join [SP] (words cs))"
          by (simp only: Cons)
        show ?thesis
        proof (cases "join [SP] (words cs) = []")
          case e1: True
          with e tf show ?thesis by (simp del: words.simps)
        next
          case e2: False
          with e tf show ?thesis by (simp del: words.simps)
        qed
      next
        case d: False
        have g: "GT \<notin> set cs \<Longrightarrow> GT \<notin> set (join [SP] (words cs))"
          using collapse_set [of cs] sp by auto
        from d have "hd (join [SP] (words (d # ds))) = d"
          by (rule collapse_hd)
        with Cons have "hd (join [SP] (words cs)) = hd cs"
          by (simp del: words.simps)
        with t g Cons have "c \<noteq> LT \<or> hd (join [SP] (words cs)) = GT
            \<or> GT \<notin> set (join [SP] (words cs))"
          by auto
        with ih have "tag_free (c # join [SP] (words (d # ds)))"
          unfolding tag_free_Cons Cons by blast
        moreover from False d have "join [SP] (words (c # d # ds)) = c # join [SP] (words (d # ds))"
          by (rule collapse_before_char)
        ultimately show ?thesis
          unfolding Cons by (simp del: words.simps tag_free.simps)
      qed
    qed
  qed
qed

lemma clean_line_eq: "clean_line U l = join [SP] (words (sub_tag l))"
  by (simp add: clean_line_def sub_ctag_id tag_free_sub_tag)

lemma clean_line_tag_free: "tag_free l \<Longrightarrow> clean_line U l = join [SP] (words l)"
  by (simp add: clean_line_eq sub_tag_id)

lemma tag_free_clean_line: "tag_free (clean_line U l)"
  by (simp add: clean_line_eq tag_free_collapse tag_free_sub_tag)

lemma clean_line_idem: "clean_line U (clean_line U l) = clean_line U l"
proof -
  have "clean_line U (clean_line U l) = join [SP] (words (clean_line U l))"
    by (rule clean_line_tag_free) (rule tag_free_clean_line)
  also have "\<dots> = join [SP] (words (join [SP] (words (sub_tag l))))"
    by (simp only: clean_line_eq)
  also have "\<dots> = join [SP] (words (sub_tag l))"
    using good_words_words [of "sub_tag l"] by (simp add: words_join good_words_def)
  finally show ?thesis by (simp only: clean_line_eq)
qed

section \<open>Cleaning the output again\<close>

lemma emitted_not_blank: "t \<in> set (emitted U s) \<Longrightarrow> \<not> is_blank t"
proof -
  assume "t \<in> set (emitted U s)"
  then obtain x where x: "t = clean_line U x" and n: "t \<noteq> []"
    by (auto simp: emitted_iff)
  then have "\<not> isspace (hd t)" by (simp add: clean_line_hd)
  moreover from n have "hd t \<in> set t" by simp
  ultimately have "\<not> (\<forall>c\<in>set t. isspace c)" by blast
  then show "\<not> is_blank t"
    by (simp add: is_blank_def strip_Nil_iff)
qed

lemma emitted_fixed: "t \<in> set (emitted U s) \<Longrightarrow> clean_line U t = t"
  by (auto simp: emitted_iff clean_line_idem)

lemma candidates_of_clean_lines:
  "\<forall>t\<in>set ts. clean_line U t = t \<and> t \<noteq> [] \<and> \<not> is_blank t \<Longrightarrow>
     candidates U ts = filter (\<lambda>t. \<not> is_header t \<and> \<not> is_timing t) ts"
  by (induction ts) (auto simp: candidates_def discarded_def)

lemma candidates_blank: "candidates U [[]] = []"
  by (simp add: candidates_def discarded_def is_blank_def strip_def)

lemma emitted_distinct: "distinct (emitted U s)"
  by (simp add: emitted_eq first_occurrences_distinct)

lemma emitted_of_clean:
  "emitted U (clean_vtt_subtitle U s) =
     filter (\<lambda>t. \<not> is_header t \<and> \<not> is_timing t) (emitted U s)"
proof (cases "emitted U s = []")
  case True
  then have "split_nl (clean_vtt_subtitle U s) = [[]]" by (simp add: split_clean)
  then have "emitted U (clean_vtt_subtitle U s) = first_occurrences (candidates U [[]])"
    by (simp only: emitted_eq)
  with True show ?thesis
    by (simp add: candidates_blank first_occurrences_Nil)
next
  case False
  then have "split_nl (clean_vtt_subtitle U s) = emitted U s" by (simp add: split_clean)
  then have "emitted U (clean_vtt_subtitle U s) = first_occurrences (candidates U (emitted U s))"
    by (simp only: emitted_eq)
  also have "candidates U (emitted U s) =
      filter (\<lambda>t. \<not> is_header t \<and> \<not> is_timing t) (emitted U s)"
  proof (rule candidates_of_clean_lines, intro ballI conjI)
    fix t
    assume t: "t \<in> set (emitted U s)"
    then show "clean_line U t = t" by (rule emitted_fixed)
    from t show "t \<noteq> []" by (simp add: emitted_iff)
    from t show "\<not> is_blank t" by (rule emitted_not_blank)
  qed
  also have "first_occurrences \<dots> = \<dots>"
    by (rule first_occurrences_id) (simp add: emitted_distinct)
  finally show ?thesis .
qed

section \<open>The header and timing tests on a collapsed line\<close>

lemma startswith_Nil: "startswith l []"
  by (simp add: startswith_def)

lemma startswith_of_Nil: "startswith [] p \<longleftrightarrow> p = []"
  by (auto simp: startswith_def)

lemma startswith_Cons: "startswith (c # r) (q # qs) \<longleftrightarrow> c = q \<and> startswith r qs"
  by (auto simp: startswith_def)

lemma startswith_collapse:
  "\<forall>c\<in>set p. \<not> isspace c \<Longrightarrow> l = [] \<or> \<not> isspace (hd l) \<Longrightarrow>
     startswith (join [SP] (words l)) p \<Longrightarrow> startswith l p"
proof (induction l arbitrary: p)
  case Nil
  then show ?case by simp
next
  case (Cons c cs)
  then have c: "\<not> isspace c" by simp
  show ?case
  proof (cases p)
    case Nil
    then show ?thesis by (simp add: startswith_Nil)
  next
    case p: (Cons q qs)
    with Cons.prems have qs: "\<forall>c\<in>set qs. \<not> isspace c" by simp
    show ?thesis
    proof (cases cs)
      case Nil
      with c Cons.prems(3) p show ?thesis
        by (simp add: startswith_Cons)
    next
      case cs: (Cons d ds)
      show ?thesis
      proof (cases "isspace d")
        case True
        with c have e: "join [SP] (words (c # d # ds)) =
            (if join [SP] (words (d # ds)) = [] then [c]
             else c # SP # join [SP] (words (d # ds)))"
          by (rule collapse_before_space)
        have "qs = []"
        proof (cases qs)
          case Nil
          then show ?thesis .
        next
          case (Cons q' qs')
          with qs isspace_SP have "q' \<noteq> SP" by auto
          with Cons.prems(3) e p cs Cons show ?thesis
            by (simp add: startswith_Cons startswith_of_Nil del: words.simps split: if_splits)
        qed
        with Cons.prems(3) e p cs show ?thesis
          by (simp add: startswith_Cons startswith_Nil del: words.simps split: if_splits)
      next
        case False
        with c have e: "join [SP] (words (c # d # ds)) = c # join [SP] (words (d # ds))"
          by (rule collapse_before_char)
        with Cons.prems(3) p cs have "c = q" "startswith (join [SP] (words cs)) qs"
          by (simp_all add: startswith_Cons del: words.simps)
        moreover from False cs have "cs = [] \<or> \<not> isspace (hd cs)" by simp
        ultimately have "c = q" "startswith cs qs"
          using Cons.IH [OF qs] by simp_all
        with p show ?thesis by (simp add: startswith_Cons)
      qed
    qed
  qed
qed

lemma contains_Nil: "contains p [] \<longleftrightarrow> p = []"
  by simp

lemma contains_collapse:
  "\<forall>c\<in>set p. \<not> isspace c \<Longrightarrow> p \<noteq> [] \<Longrightarrow>
     contains p (join [SP] (words l)) \<Longrightarrow> contains p l"
proof (induction l)
  case Nil
  then show ?case by simp
next
  case (Cons c cs)
  from Cons.prems have hp: "hd p \<noteq> SP" using isspace_SP by (cases p) auto
  show ?case
  proof (cases "isspace c")
    case True
    with Cons show ?thesis by simp
  next
    case c: False
    show ?thesis
    proof (cases "startswith (join [SP] (words (c # cs))) p")
      case True
      with Cons.prems(1) c have "startswith (c # cs) p"
        using startswith_collapse [of p "c # cs"] by simp
      then show ?thesis by simp
    next
      case ns: False
      have "contains p (join [SP] (words cs))"
      proof (cases cs)
        case Nil
        with c ns Cons.prems show ?thesis by simp
      next
        case cs: (Cons d ds)
        show ?thesis
        proof (cases "isspace d")
          case True
          with c have e: "join [SP] (words (c # d # ds)) =
              (if join [SP] (words (d # ds)) = [] then [c]
               else c # SP # join [SP] (words (d # ds)))"
            by (rule collapse_before_space)
          have "\<not> startswith (SP # join [SP] (words (d # ds))) p"
            using hp Cons.prems(2) by (cases p) (auto simp: startswith_Cons)
          with Cons.prems(2,3) ns e cs show ?thesis
            by (simp del: words.simps split: if_splits)
        next
          case False
          with c have e: "join [SP] (words (c # d # ds)) = c # join [SP] (words (d # ds))"
            by (rule collapse_before_char)
          with Cons.prems(3) ns cs show ?thesis
            by (simp del: words.simps)
        qed
      qed
      with Cons have "contains p cs" by simp
      then show ?thesis by simp
    qed
  qed
qed

lemma header_literals_no_space:
  "\<forall>c\<in>set (py ''WEBVTT''). \<not> isspace c" "\<forall>c\<in>set (py ''Kind:''). \<not> isspace c"
  "\<forall>c\<in>set (py ''Language:''). \<not> isspace c" "\<forall>c\<in>set (py ''-->''). \<not> isspace c"
  by (simp_all add: py_def isspace_def)

lemma is_header_collapse:
  "l = [] \<or> \<not> isspace (hd l) \<Longrightarrow> is_header (join [SP] (words l)) \<Longrightarrow> is_header l"
  unfolding is_header_def using startswith_collapse header_literals_no_space by blast

lemma is_timing_collapse: "is_timing (join [SP] (words l)) \<Longrightarrow> is_timing l"
proof -
  have "py ''-->'' \<noteq> []" by (simp add: py_def)
  then show "is_timing (join [SP] (words l)) \<Longrightarrow> is_timing l"
    unfolding is_timing_def using contains_collapse header_literals_no_space(4) by blast
qed

lemma candidates_filter:
  "(\<And>l. \<not> keep l \<Longrightarrow> discarded l) \<Longrightarrow> candidates U (filter keep ls) = candidates U ls"
proof -
  assume k: "\<And>l. \<not> keep l \<Longrightarrow> discarded l"
  have "filter (\<lambda>l. \<not> discarded l) (filter keep ls) = filter (\<lambda>l. \<not> discarded l) ls"
    using k by (induction ls) auto
  then show ?thesis by (simp only: candidates_def)
qed

lemma run_loop_filter:
  "(\<And>l. \<not> keep l \<Longrightarrow> discarded l) \<Longrightarrow> run_loop U (filter keep ls) = run_loop U ls"
  using candidates_filter [of keep U ls] by (simp add: run_loop_eq)

lemma emitted_source:
  "t \<in> set (emitted U s) \<Longrightarrow>
     \<exists>l\<in>set (split_nl s). \<not> is_header l \<and> \<not> is_timing l \<and> \<not> is_blank l \<and> t = clean_line U l"
  by (auto simp: emitted_iff discarded_def)

lemma clean_line_in_output:
  "l \<in> set (split_nl s) \<Longrightarrow> \<not> discarded l \<Longrightarrow> clean_line U l \<noteq> [] \<Longrightarrow>
     clean_line U l \<in> set (split_nl (clean_vtt_subtitle U s))"
proof -
  assume a: "l \<in> set (split_nl s)" "\<not> discarded l" "clean_line U l \<noteq> []"
  then have "clean_line U l \<in> set (emitted U s)"
    by (auto simp: emitted_iff)
  then show ?thesis by (auto simp: split_clean)
qed

lemma clean_line_plain_not_Nil: "tag_free l \<Longrightarrow> \<not> is_blank l \<Longrightarrow> clean_line U l \<noteq> []"
  by (simp add: clean_line_tag_free join_words_Nil_iff words_Nil_iff is_blank_def strip_Nil_iff)

section \<open>The properties\<close>

text \<open>
  C1, as the code has it: no two lines of the output are equal, and the lines of the
  output are in the order of the first occurrence of their cleaned form among the input
  lines that are kept, that is, those that pass the header, timing and blank-line tests
  and whose cleaned form is not empty. A discarded line does not count for the order,
  whatever its cleaned form would be.
\<close>

theorem output_lines_distinct_in_first_occurrence_order:
  "distinct (split_nl (clean_vtt_subtitle U s)) \<and>
   split_nl (clean_vtt_subtitle U s) = (if emitted U s = [] then [[]] else emitted U s) \<and>
   emitted U s = first_occurrences (candidates U (split_nl s))"
proof -
  have "distinct (emitted U s)"
    by (simp add: emitted_eq first_occurrences_distinct)
  then show ?thesis
    by (simp add: split_clean emitted_eq)
qed

theorem output_lines_distinct_in_first_occurrence_order_witness:
  "candidates (\<lambda>c. False)
     (split_nl (py ''WEBVTT'' @ [NL] @ py ''b  x'' @ [NL] @ py ''a'' @ [NL] @ py ''<c>b</c> x''
        @ [NL, NL] @ py ''a'' @ [NL] @ py ''c''))
     = [py ''b x'', py ''a'', py ''b x'', py ''a'', py ''c''] \<and>
   split_nl (clean_vtt_subtitle (\<lambda>c. False)
     (py ''WEBVTT'' @ [NL] @ py ''b  x'' @ [NL] @ py ''a'' @ [NL] @ py ''<c>b</c> x''
        @ [NL, NL] @ py ''a'' @ [NL] @ py ''c''))
     = [py ''b x'', py ''a'', py ''c'']"
proof -
  let ?s = "py ''WEBVTT'' @ [NL] @ py ''b  x'' @ [NL] @ py ''a'' @ [NL] @ py ''<c>b</c> x''
        @ [NL, NL] @ py ''a'' @ [NL] @ py ''c''"
  have c: "candidates (\<lambda>c. False) (split_nl ?s)
      = [py ''b x'', py ''a'', py ''b x'', py ''a'', py ''c'']"
    by (simp add: candidates_def discarded_def py_def is_header_def
        is_timing_def is_blank_def clean_line_def startswith_def strip_def isspace_def
        LT_def GT_def NL_def SP_def SLASH_def match_word_run_def isword_def)
  have f: "first_occurrences [py ''b x'', py ''a'', py ''b x'', py ''a'', py ''c'']
      = [py ''b x'', py ''a'', py ''c'']"
    by (simp add: first_occurrences_def py_def upt_rec)
  from output_lines_distinct_in_first_occurrence_order [of "\<lambda>c. False" ?s] c f
  show ?thesis by simp
qed

theorem discarded_line_does_not_count_for_the_order:
  "map (clean_line (\<lambda>c. False)) (split_nl (py ''WEBVTT'' @ [NL] @ py ''a'' @ [NL] @ py '' WEBVTT''))
     = [py ''WEBVTT'', py ''a'', py ''WEBVTT''] \<and>
   split_nl (clean_vtt_subtitle (\<lambda>c. False) (py ''WEBVTT'' @ [NL] @ py ''a'' @ [NL] @ py '' WEBVTT''))
     = [py ''a'', py ''WEBVTT''] \<and>
   first_index (map (clean_line (\<lambda>c. False))
       (split_nl (py ''WEBVTT'' @ [NL] @ py ''a'' @ [NL] @ py '' WEBVTT''))) (py ''a'') = 1 \<and>
   first_index (map (clean_line (\<lambda>c. False))
       (split_nl (py ''WEBVTT'' @ [NL] @ py ''a'' @ [NL] @ py '' WEBVTT''))) (py ''WEBVTT'') = 0 \<and>
   split_nl (clean_vtt_subtitle (\<lambda>c. False) (py ''WEBVTT'' @ [NL] @ py ''a'' @ [NL] @ py '' WEBVTT''))
     \<noteq> first_occurrences (map (clean_line (\<lambda>c. False))
         (split_nl (py ''WEBVTT'' @ [NL] @ py ''a'' @ [NL] @ py '' WEBVTT'')))"
proof -
  let ?s = "py ''WEBVTT'' @ [NL] @ py ''a'' @ [NL] @ py '' WEBVTT''"
  have m: "map (clean_line (\<lambda>c. False)) (split_nl ?s) = [py ''WEBVTT'', py ''a'', py ''WEBVTT'']"
    by (simp add: py_def clean_line_def isspace_def LT_def GT_def NL_def SP_def SLASH_def
        match_word_run_def isword_def)
  have c: "split_nl (clean_vtt_subtitle (\<lambda>c. False) ?s) = [py ''a'', py ''WEBVTT'']"
    by (simp add: clean_vtt_subtitle_def run_loop_def step_def py_def is_header_def
        is_timing_def is_blank_def clean_line_def startswith_def strip_def isspace_def
        LT_def GT_def NL_def SP_def SLASH_def match_word_run_def isword_def)
  have i: "first_index [py ''WEBVTT'', py ''a'', py ''WEBVTT''] (py ''a'') = 1"
    "first_index [py ''WEBVTT'', py ''a'', py ''WEBVTT''] (py ''WEBVTT'') = 0"
    by (simp_all add: first_index_def py_def)
  have f: "first_occurrences [py ''WEBVTT'', py ''a'', py ''WEBVTT''] = [py ''WEBVTT'', py ''a'']"
    by (simp add: first_occurrences_def py_def upt_rec)
  have n: "[py ''a'', py ''WEBVTT''] \<noteq> [py ''WEBVTT'', py ''a'']"
    by (simp add: py_def)
  from m c i f n show ?thesis by (simp only: simp_thms)
qed

text \<open>
  C2, as the code has it: cleaning the output once more drops the lines of the output
  that begin with \<open>WEBVTT\<close>, \<open>Kind:\<close> or \<open>Language:\<close> or that contain \<open>-->\<close>, and keeps
  the others as they are. So \<open>clean(clean(s)) = clean(s)\<close> whenever no line of \<open>clean(s)\<close>
  begins with one of the three headers or contains \<open>-->\<close>.
\<close>

theorem clean_idempotent_without_header_or_timing_lines:
  "clean_vtt_subtitle U (clean_vtt_subtitle U s) =
     join [NL] (filter (\<lambda>t. \<not> is_header t \<and> \<not> is_timing t) (emitted U s)) \<and>
   ((\<forall>t\<in>set (split_nl (clean_vtt_subtitle U s)). \<not> is_header t \<and> \<not> is_timing t) \<longrightarrow>
      clean_vtt_subtitle U (clean_vtt_subtitle U s) = clean_vtt_subtitle U s)"
proof
  show a: "clean_vtt_subtitle U (clean_vtt_subtitle U s) =
     join [NL] (filter (\<lambda>t. \<not> is_header t \<and> \<not> is_timing t) (emitted U s))"
    by (simp only: clean_eq [of U "clean_vtt_subtitle U s"] emitted_of_clean)
  show "(\<forall>t\<in>set (split_nl (clean_vtt_subtitle U s)). \<not> is_header t \<and> \<not> is_timing t) \<longrightarrow>
      clean_vtt_subtitle U (clean_vtt_subtitle U s) = clean_vtt_subtitle U s"
  proof
    assume h: "\<forall>t\<in>set (split_nl (clean_vtt_subtitle U s)). \<not> is_header t \<and> \<not> is_timing t"
    have "\<forall>t\<in>set (emitted U s). \<not> is_header t \<and> \<not> is_timing t"
    proof (cases "emitted U s = []")
      case True
      then show ?thesis by simp
    next
      case False
      with h show ?thesis by (simp add: split_clean)
    qed
    then have "filter (\<lambda>t. \<not> is_header t \<and> \<not> is_timing t) (emitted U s) = emitted U s"
      by (simp add: filter_id_conv)
    with a show "clean_vtt_subtitle U (clean_vtt_subtitle U s) = clean_vtt_subtitle U s"
      by (simp add: clean_eq [of U s])
  qed
qed

theorem clean_idempotent_without_header_or_timing_lines_witness:
  "clean_vtt_subtitle (\<lambda>c. False) (py ''WEBVTT'' @ [NL, NL] @ py ''00:01 --> 00:03'' @ [NL]
      @ py ''<c>Hi</c>  there'' @ [NL, NL] @ py ''Hi there'' @ [NL] @ py ''x'') = py ''Hi there'' @ [NL] @ py ''x'' \<and>
   clean_vtt_subtitle (\<lambda>c. False) (py ''Hi there'' @ [NL] @ py ''x'') = py ''Hi there'' @ [NL] @ py ''x''"
proof -
  let ?s = "py ''WEBVTT'' @ [NL, NL] @ py ''00:01 --> 00:03'' @ [NL]
      @ py ''<c>Hi</c>  there'' @ [NL, NL] @ py ''Hi there'' @ [NL] @ py ''x''"
  have e: "clean_vtt_subtitle (\<lambda>c. False) ?s = py ''Hi there'' @ [NL] @ py ''x''"
    by (simp add: clean_vtt_subtitle_def run_loop_def step_def py_def is_header_def
        is_timing_def is_blank_def clean_line_def startswith_def strip_def isspace_def
        LT_def GT_def NL_def SP_def SLASH_def match_word_run_def isword_def)
  have h: "\<forall>t\<in>set (split_nl (py ''Hi there'' @ [NL] @ py ''x'')). \<not> is_header t \<and> \<not> is_timing t"
    by (simp add: py_def NL_def is_header_def is_timing_def startswith_def)
  from h e have "\<forall>t\<in>set (split_nl (clean_vtt_subtitle (\<lambda>c. False) ?s)).
      \<not> is_header t \<and> \<not> is_timing t"
    by (simp only:)
  with clean_idempotent_without_header_or_timing_lines [of "\<lambda>c. False" ?s]
  have "clean_vtt_subtitle (\<lambda>c. False) (clean_vtt_subtitle (\<lambda>c. False) ?s)
      = clean_vtt_subtitle (\<lambda>c. False) ?s"
    by blast
  with e show ?thesis by (simp only:)
qed

theorem clean_not_idempotent:
  "clean_vtt_subtitle (\<lambda>c. False) (py ''--<b>>'') = py ''-->'' \<and>
   clean_vtt_subtitle (\<lambda>c. False) (clean_vtt_subtitle (\<lambda>c. False) (py ''--<b>>'')) = [] \<and>
   clean_vtt_subtitle (\<lambda>c. False) (clean_vtt_subtitle (\<lambda>c. False) (py ''--<b>>''))
     \<noteq> clean_vtt_subtitle (\<lambda>c. False) (py ''--<b>>'')"
proof -
  have a: "clean_vtt_subtitle (\<lambda>c. False) (py ''--<b>>'') = py ''-->''"
    by (simp add: clean_vtt_subtitle_def run_loop_def step_def py_def is_header_def
        is_timing_def is_blank_def clean_line_def startswith_def strip_def isspace_def
        LT_def GT_def NL_def SP_def SLASH_def match_word_run_def isword_def)
  have b: "clean_vtt_subtitle (\<lambda>c. False) (py ''-->'') = []"
    by (simp add: clean_vtt_subtitle_def run_loop_def step_def py_def is_header_def
        is_timing_def is_blank_def clean_line_def startswith_def strip_def isspace_def
        LT_def GT_def NL_def SP_def SLASH_def match_word_run_def isword_def)
  have "py ''-->'' \<noteq> []" by (simp add: py_def)
  with a b show ?thesis by simp
qed

text \<open>
  C3, as the code has it: an input line that begins with \<open>WEBVTT\<close>, \<open>Kind:\<close> or
  \<open>Language:\<close> is discarded (it leaves the state of the loop as it is, and the result is
  the same without these lines), and every emitted line is the cleaned form of an input
  line that does not begin with one of them. The test is made on the raw line: the
  cleaned form of a line without tags that begins neither with whitespace nor with one
  of the three prefixes does not begin with one of them either.
\<close>

theorem header_lines_are_discarded:
  "(\<forall>l. is_header l \<longrightarrow> step U st l = st) \<and>
   run_loop U (filter (\<lambda>l. \<not> is_header l) ls) = run_loop U ls \<and>
   (\<forall>t\<in>set (emitted U s). \<exists>l\<in>set (split_nl s). \<not> is_header l \<and> t = clean_line U l) \<and>
   (\<forall>l. tag_free l \<and> (l = [] \<or> \<not> isspace (hd l)) \<and> \<not> is_header l \<longrightarrow>
        \<not> is_header (clean_line U l))"
proof (intro conjI)
  show "\<forall>l. is_header l \<longrightarrow> step U st l = st"
    by (simp add: step_def)
  show "run_loop U (filter (\<lambda>l. \<not> is_header l) ls) = run_loop U ls"
    by (rule run_loop_filter) (simp add: discarded_def)
  show "\<forall>t\<in>set (emitted U s). \<exists>l\<in>set (split_nl s). \<not> is_header l \<and> t = clean_line U l"
    using emitted_source by blast
  show "\<forall>l. tag_free l \<and> (l = [] \<or> \<not> isspace (hd l)) \<and> \<not> is_header l \<longrightarrow>
        \<not> is_header (clean_line U l)"
    using is_header_collapse by (auto simp: clean_line_tag_free)
qed

theorem header_lines_are_discarded_witness:
  "step (\<lambda>c. False) \<lparr>text_lines = [py ''a''], seen_lines = {py ''a''}\<rparr> (py ''Kind: captions'')
     = \<lparr>text_lines = [py ''a''], seen_lines = {py ''a''}\<rparr> \<and>
   run_loop (\<lambda>c. False) [py ''Hello'']
     = run_loop (\<lambda>c. False) [py ''WEBVTT'', py ''Hello'', py ''Language: en''] \<and>
   \<not> is_header (clean_line (\<lambda>c. False) (py ''Web  VTT''))"
proof -
  note t = header_lines_are_discarded [of "\<lambda>c. False"
      "\<lparr>text_lines = [py ''a''], seen_lines = {py ''a''}\<rparr>"
      "[py ''WEBVTT'', py ''Hello'', py ''Language: en'']" "[]"]
  have h: "is_header (py ''Kind: captions'')" "is_header (py ''WEBVTT'')"
    "is_header (py ''Language: en'')" "\<not> is_header (py ''Hello'')"
    "\<not> is_header (py ''Web  VTT'')"
    by (simp_all add: is_header_def startswith_def py_def)
  have f: "tag_free (py ''Web  VTT'')" "\<not> isspace (hd (py ''Web  VTT''))"
    by (simp_all add: py_def LT_def GT_def isspace_def)
  from t h(1) have a: "step (\<lambda>c. False) \<lparr>text_lines = [py ''a''], seen_lines = {py ''a''}\<rparr>
      (py ''Kind: captions'') = \<lparr>text_lines = [py ''a''], seen_lines = {py ''a''}\<rparr>"
    by blast
  from t have "run_loop (\<lambda>c. False)
      (filter (\<lambda>l. \<not> is_header l) [py ''WEBVTT'', py ''Hello'', py ''Language: en''])
      = run_loop (\<lambda>c. False) [py ''WEBVTT'', py ''Hello'', py ''Language: en'']"
    by blast
  with h have b: "run_loop (\<lambda>c. False) [py ''Hello'']
     = run_loop (\<lambda>c. False) [py ''WEBVTT'', py ''Hello'', py ''Language: en'']"
    by simp
  from t f h(5) have "\<not> is_header (clean_line (\<lambda>c. False) (py ''Web  VTT''))"
    by blast
  with a b show ?thesis by blast
qed

theorem header_text_reaches_output:
  "\<not> is_header (py '' WEBVTT'') \<and>
   split_nl (clean_vtt_subtitle (\<lambda>c. False) (py '' WEBVTT'')) = [py ''WEBVTT''] \<and>
   startswith (py ''WEBVTT'') (py ''WEBVTT'')"
  by (simp add: clean_vtt_subtitle_def run_loop_def step_def py_def is_header_def
        is_timing_def is_blank_def clean_line_def startswith_def strip_def isspace_def
        LT_def GT_def NL_def SP_def SLASH_def match_word_run_def isword_def)

text \<open>
  C4, as the code has it: an input line that contains \<open>-->\<close> is discarded, also when it
  has visible text (it leaves the state of the loop as it is, and the result is the same
  without these lines), and every emitted line is the cleaned form of an input line
  that does not contain \<open>-->\<close>. The test is made on the raw line: the cleaned form of a
  line without tags that does not contain \<open>-->\<close> does not contain it either.
\<close>

theorem timing_lines_are_discarded:
  "(\<forall>l. is_timing l \<longrightarrow> step U st l = st) \<and>
   run_loop U (filter (\<lambda>l. \<not> is_timing l) ls) = run_loop U ls \<and>
   (\<forall>t\<in>set (emitted U s). \<exists>l\<in>set (split_nl s). \<not> is_timing l \<and> t = clean_line U l) \<and>
   (\<forall>l. tag_free l \<and> \<not> is_timing l \<longrightarrow> \<not> is_timing (clean_line U l))"
proof (intro conjI)
  show "\<forall>l. is_timing l \<longrightarrow> step U st l = st"
    by (simp add: step_def)
  show "run_loop U (filter (\<lambda>l. \<not> is_timing l) ls) = run_loop U ls"
    by (rule run_loop_filter) (simp add: discarded_def)
  show "\<forall>t\<in>set (emitted U s). \<exists>l\<in>set (split_nl s). \<not> is_timing l \<and> t = clean_line U l"
    using emitted_source by blast
  show "\<forall>l. tag_free l \<and> \<not> is_timing l \<longrightarrow> \<not> is_timing (clean_line U l)"
    using is_timing_collapse by (auto simp: clean_line_tag_free)
qed

theorem timing_lines_are_discarded_witness:
  "step (\<lambda>c. False) \<lparr>text_lines = [py ''a''], seen_lines = {py ''a''}\<rparr> (py ''note --> text'')
     = \<lparr>text_lines = [py ''a''], seen_lines = {py ''a''}\<rparr> \<and>
   run_loop (\<lambda>c. False) [py ''Hello'']
     = run_loop (\<lambda>c. False) [py ''00:01 --> 00:02'', py ''Hello'', py ''x --> y''] \<and>
   \<not> is_timing (clean_line (\<lambda>c. False) (py ''a -- >  b''))"
proof -
  note t = timing_lines_are_discarded [of "\<lambda>c. False"
      "\<lparr>text_lines = [py ''a''], seen_lines = {py ''a''}\<rparr>"
      "[py ''00:01 --> 00:02'', py ''Hello'', py ''x --> y'']" "[]"]
  have h: "is_timing (py ''note --> text'')" "is_timing (py ''00:01 --> 00:02'')"
    "is_timing (py ''x --> y'')" "\<not> is_timing (py ''Hello'')"
    "\<not> is_timing (py ''a -- >  b'')"
    by (simp_all add: is_timing_def startswith_def py_def)
  have f: "tag_free (py ''a -- >  b'')"
    by (simp add: py_def LT_def GT_def)
  from t h(1) have a: "step (\<lambda>c. False) \<lparr>text_lines = [py ''a''], seen_lines = {py ''a''}\<rparr>
      (py ''note --> text'') = \<lparr>text_lines = [py ''a''], seen_lines = {py ''a''}\<rparr>"
    by blast
  from t have "run_loop (\<lambda>c. False)
      (filter (\<lambda>l. \<not> is_timing l) [py ''00:01 --> 00:02'', py ''Hello'', py ''x --> y''])
      = run_loop (\<lambda>c. False) [py ''00:01 --> 00:02'', py ''Hello'', py ''x --> y'']"
    by blast
  with h have b: "run_loop (\<lambda>c. False) [py ''Hello'']
     = run_loop (\<lambda>c. False) [py ''00:01 --> 00:02'', py ''Hello'', py ''x --> y'']"
    by simp
  from t f h(5) have "\<not> is_timing (clean_line (\<lambda>c. False) (py ''a -- >  b''))"
    by blast
  with a b show ?thesis by blast
qed

theorem arrow_reaches_output:
  "\<not> is_timing (py ''a -<i>-</i>> b'') \<and>
   split_nl (clean_vtt_subtitle (\<lambda>c. False) (py ''a -<i>-</i>> b'')) = [py ''a --> b''] \<and>
   contains (py ''-->'') (py ''a --> b'')"
  by (simp add: clean_vtt_subtitle_def run_loop_def step_def py_def is_header_def
        is_timing_def is_blank_def clean_line_def startswith_def strip_def isspace_def
        LT_def GT_def NL_def SP_def SLASH_def match_word_run_def isword_def)

text \<open>
  C5: the second pass of tag removal, \<open>re.sub(r'</?\w+>', '', _)\<close>, leaves the result
  of the first pass, \<open>re.sub(r'<[^>]+>', '', line)\<close>, as it is: the two passes together
  are equal to the first pass alone, for every line.
\<close>

theorem second_pass_is_identity: "sub_ctag U (sub_tag l) = sub_tag l"
  by (rule sub_ctag_id) (rule tag_free_sub_tag)

theorem second_pass_is_identity_witness:
  "sub_ctag (\<lambda>c. False) (sub_tag (py ''<c.x>Hi</c> <<b>i> a<>b'')) = py ''Hi i> a<>b''"
proof -
  have "sub_tag (py ''<c.x>Hi</c> <<b>i> a<>b'') = py ''Hi i> a<>b''"
    by (simp add: py_def LT_def GT_def)
  with second_pass_is_identity [of "\<lambda>c. False" "py ''<c.x>Hi</c> <<b>i> a<>b''"]
  show ?thesis by simp
qed

text \<open>
  C6, as the code has it. The routine has no operation that can raise, and every scan of it ends
  (the functions of the model are total, the scans of \<open>re.sub\<close> and \<open>split\<close> by their
  termination proofs), so that for every input the result is the join of the kept lines.
  An input line that passes the header, timing and blank-line tests is cleaned as plain
  text, by tag removal and whitespace collapsing, and its cleaned form is a line of the
  output, unless the cleaned form is empty: then the line is dropped. A line without
  tags that passes the three tests has a cleaned form that is not empty.
\<close>

theorem kept_lines_pass_through:
  "clean_vtt_subtitle U s = join [NL] (first_occurrences (candidates U (split_nl s))) \<and>
   (\<forall>l\<in>set (split_nl s). \<not> discarded l \<and> clean_line U l \<noteq> [] \<longrightarrow>
        clean_line U l = join [SP] (words (sub_tag l)) \<and>
        clean_line U l \<in> set (split_nl (clean_vtt_subtitle U s))) \<and>
   (\<forall>l. \<not> discarded l \<and> tag_free l \<longrightarrow>
        clean_line U l = join [SP] (words l) \<and> clean_line U l \<noteq> [])"
proof (intro conjI)
  show "clean_vtt_subtitle U s = join [NL] (first_occurrences (candidates U (split_nl s)))"
    by (simp only: clean_eq emitted_eq)
  show "\<forall>l\<in>set (split_nl s). \<not> discarded l \<and> clean_line U l \<noteq> [] \<longrightarrow>
        clean_line U l = join [SP] (words (sub_tag l)) \<and>
        clean_line U l \<in> set (split_nl (clean_vtt_subtitle U s))"
    using clean_line_in_output clean_line_eq by blast
  show "\<forall>l. \<not> discarded l \<and> tag_free l \<longrightarrow>
        clean_line U l = join [SP] (words l) \<and> clean_line U l \<noteq> []"
    using clean_line_tag_free clean_line_plain_not_Nil by (auto simp: discarded_def)
qed

theorem kept_lines_pass_through_witness:
  "clean_vtt_subtitle (\<lambda>c. False) (py ''NOTE x < y'' @ [NL] @ py ''<v Bob>no  end tag'')
     = py ''NOTE x < y'' @ [NL] @ py ''no end tag'' \<and>
   clean_line (\<lambda>c. False) (py ''<v Bob>no  end tag'') = py ''no end tag'' \<and>
   clean_line (\<lambda>c. False) (py ''NOTE x < y'') = py ''NOTE x < y''"
proof -
  let ?s = "py ''NOTE x < y'' @ [NL] @ py ''<v Bob>no  end tag''"
  note t = kept_lines_pass_through [of "\<lambda>c. False" ?s]
  have e: "clean_vtt_subtitle (\<lambda>c. False) ?s = py ''NOTE x < y'' @ [NL] @ py ''no end tag''"
    by (simp add: clean_vtt_subtitle_def run_loop_def step_def py_def is_header_def
        is_timing_def is_blank_def clean_line_def startswith_def strip_def isspace_def
        LT_def GT_def NL_def SP_def SLASH_def match_word_run_def isword_def)
  have d: "\<not> discarded (py ''NOTE x < y'')" "tag_free (py ''NOTE x < y'')"
    by (simp_all add: discarded_def py_def is_header_def is_timing_def is_blank_def
        startswith_def strip_def isspace_def LT_def GT_def)
  with t have "clean_line (\<lambda>c. False) (py ''NOTE x < y'') = join [SP] (words (py ''NOTE x < y''))"
    by blast
  then have a: "clean_line (\<lambda>c. False) (py ''NOTE x < y'') = py ''NOTE x < y''"
    by (simp add: py_def isspace_def SP_def)
  have b: "clean_line (\<lambda>c. False) (py ''<v Bob>no  end tag'') = py ''no end tag''"
    by (simp add: py_def clean_line_def isspace_def LT_def GT_def SP_def SLASH_def
        match_word_run_def isword_def)
  from e a b show ?thesis by blast
qed

theorem tag_only_line_is_dropped:
  "py ''<b>'' \<in> set (split_nl (py ''a'' @ [NL] @ py ''<b>'')) \<and>
   \<not> discarded (py ''<b>'') \<and>
   clean_line (\<lambda>c. False) (py ''<b>'') = [] \<and>
   split_nl (clean_vtt_subtitle (\<lambda>c. False) (py ''a'' @ [NL] @ py ''<b>'')) = [py ''a''] \<and>
   clean_line (\<lambda>c. False) (py ''<b>'')
     \<notin> set (split_nl (clean_vtt_subtitle (\<lambda>c. False) (py ''a'' @ [NL] @ py ''<b>'')))"
  by (simp add: clean_vtt_subtitle_def run_loop_def step_def py_def is_header_def discarded_def
        is_timing_def is_blank_def clean_line_def startswith_def strip_def isspace_def
        LT_def GT_def NL_def SP_def SLASH_def match_word_run_def isword_def)

text \<open>
  C7: when the cleaned text is the empty string, as it is for an input whose lines are
  all header or timing lines, the statistics of \<open>main\<close> are a line count of 1 and a
  character count of 0.
\<close>

theorem statistics_of_empty_output:
  "(clean_vtt_subtitle U s = [] \<longrightarrow> main_statistics U s = (1, 0)) \<and>
   ((\<forall>l\<in>set (split_nl s). is_header l \<or> is_timing l) \<longrightarrow> clean_vtt_subtitle U s = [])"
proof
  show "clean_vtt_subtitle U s = [] \<longrightarrow> main_statistics U s = (1, 0)"
    by (simp add: main_statistics_def line_count_def char_count_def)
next
  show "(\<forall>l\<in>set (split_nl s). is_header l \<or> is_timing l) \<longrightarrow> clean_vtt_subtitle U s = []"
  proof
    assume "\<forall>l\<in>set (split_nl s). is_header l \<or> is_timing l"
    then have "emitted U s = []"
      by (auto simp: emitted_Nil_iff discarded_def)
    then show "clean_vtt_subtitle U s = []"
      by (simp add: clean_eq)
  qed
qed

theorem statistics_of_empty_output_witness:
  "clean_vtt_subtitle (\<lambda>c. False) (py ''WEBVTT'' @ [NL] @ py ''00:01 --> 00:02'') = [] \<and>
   main_statistics (\<lambda>c. False) (py ''WEBVTT'' @ [NL] @ py ''00:01 --> 00:02'') = (1, 0)"
proof -
  have h: "\<forall>l\<in>set (split_nl (py ''WEBVTT'' @ [NL] @ py ''00:01 --> 00:02'')). is_header l \<or> is_timing l"
    by (simp add: py_def NL_def is_header_def is_timing_def startswith_def)
  with statistics_of_empty_output [of "\<lambda>c. False" "py ''WEBVTT'' @ [NL] @ py ''00:01 --> 00:02''"]
  show ?thesis by blast
qed

text \<open>
  C8: the output has no blank line. It is the join, by single newlines, of the emitted
  lines; an emitted line is neither empty nor made of whitespace only, so the output
  neither begins nor ends with a newline and has no two newlines in a row; and an input
  line that is empty or made of whitespace only leaves the state of the loop as it is.
\<close>

theorem output_has_no_blank_lines:
  "clean_vtt_subtitle U s = join [NL] (emitted U s) \<and>
   (\<forall>t\<in>set (emitted U s). t \<noteq> [] \<and> \<not> is_blank t) \<and>
   (clean_vtt_subtitle U s \<noteq> [] \<longrightarrow>
      split_nl (clean_vtt_subtitle U s) = emitted U s \<and>
      hd (clean_vtt_subtitle U s) \<noteq> NL \<and> last (clean_vtt_subtitle U s) \<noteq> NL) \<and>
   \<not> contains [NL, NL] (clean_vtt_subtitle U s) \<and>
   (\<forall>l. is_blank l \<longrightarrow> step U st l = st)"
proof -
  have a: "\<forall>t\<in>set (emitted U s). t \<noteq> [] \<and> NL \<notin> set t"
    by (auto simp: emitted_iff clean_line_no_NL)
  have b: "\<forall>t\<in>set (emitted U s). t \<noteq> [] \<and> \<not> is_blank t"
  proof
    fix t
    assume t: "t \<in> set (emitted U s)"
    then obtain x where x: "t = clean_line U x" and n: "t \<noteq> []"
      by (auto simp: emitted_iff)
    then have "\<not> isspace (hd t)" by (simp add: clean_line_hd)
    moreover from n have "hd t \<in> set t" by simp
    ultimately have "\<not> (\<forall>c\<in>set t. isspace c)" by blast
    with n show "t \<noteq> [] \<and> \<not> is_blank t"
      by (simp add: is_blank_def strip_Nil_iff)
  qed
  have c: "clean_vtt_subtitle U s \<noteq> [] \<longrightarrow>
      split_nl (clean_vtt_subtitle U s) = emitted U s \<and>
      hd (clean_vtt_subtitle U s) \<noteq> NL \<and> last (clean_vtt_subtitle U s) \<noteq> NL"
  proof
    assume "clean_vtt_subtitle U s \<noteq> []"
    then have n: "emitted U s \<noteq> []" by (simp add: clean_Nil_iff)
    then have "split_nl (clean_vtt_subtitle U s) = emitted U s"
      by (simp add: split_clean)
    with clean_no_blank_line_aux [OF n a] show
      "split_nl (clean_vtt_subtitle U s) = emitted U s \<and>
        hd (clean_vtt_subtitle U s) \<noteq> NL \<and> last (clean_vtt_subtitle U s) \<noteq> NL"
      by (simp add: clean_eq)
  qed
  have d: "\<not> contains [NL, NL] (clean_vtt_subtitle U s)"
  proof (cases "emitted U s = []")
    case True
    then show ?thesis by (simp add: clean_eq)
  next
    case False
    with clean_no_blank_line_aux [OF False a] show ?thesis by (simp add: clean_eq)
  qed
  have e: "\<forall>l. is_blank l \<longrightarrow> step U st l = st"
    by (simp add: step_discarded discarded_def)
  from b c d e show ?thesis by (simp add: clean_eq)
qed

theorem output_has_no_blank_lines_witness:
  "clean_vtt_subtitle (\<lambda>c. False) (py ''a'' @ [NL, NL, SP, 9, NL] @ py ''b'' @ [NL]) = py ''a'' @ [NL] @ py ''b'' \<and>
   emitted (\<lambda>c. False) (py ''a'' @ [NL, NL, SP, 9, NL] @ py ''b'' @ [NL]) = [py ''a'', py ''b''] \<and>
   step (\<lambda>c. False) \<lparr>text_lines = [py ''a''], seen_lines = {py ''a''}\<rparr> [SP, 9]
     = \<lparr>text_lines = [py ''a''], seen_lines = {py ''a''}\<rparr>"
proof -
  have e: "clean_vtt_subtitle (\<lambda>c. False) (py ''a'' @ [NL, NL, SP, 9, NL] @ py ''b'' @ [NL])
      = py ''a'' @ [NL] @ py ''b''"
    by (simp add: clean_vtt_subtitle_def run_loop_def step_def py_def is_header_def
        is_timing_def is_blank_def clean_line_def startswith_def strip_def isspace_def
        LT_def GT_def NL_def SP_def SLASH_def match_word_run_def isword_def)
  have s: "split_nl (py ''a'' @ [NL] @ py ''b'') = [py ''a'', py ''b'']"
    by (simp add: py_def NL_def)
  have b: "is_blank [SP, 9]"
    by (simp add: is_blank_def strip_def isspace_def SP_def)
  note t = output_has_no_blank_lines
    [of "\<lambda>c. False" "py ''a'' @ [NL, NL, SP, 9, NL] @ py ''b'' @ [NL]"
      "\<lparr>text_lines = [py ''a''], seen_lines = {py ''a''}\<rparr>"]
  from e have "clean_vtt_subtitle (\<lambda>c. False) (py ''a'' @ [NL, NL, SP, 9, NL] @ py ''b'' @ [NL]) \<noteq> []"
    by (simp add: py_def)
  with t have "split_nl (clean_vtt_subtitle (\<lambda>c. False) (py ''a'' @ [NL, NL, SP, 9, NL] @ py ''b'' @ [NL]))
      = emitted (\<lambda>c. False) (py ''a'' @ [NL, NL, SP, 9, NL] @ py ''b'' @ [NL])"
    by blast
  with e s have m: "emitted (\<lambda>c. False) (py ''a'' @ [NL, NL, SP, 9, NL] @ py ''b'' @ [NL])
      = [py ''a'', py ''b'']"
    by simp
  from t b have "step (\<lambda>c. False) \<lparr>text_lines = [py ''a''], seen_lines = {py ''a''}\<rparr> [SP, 9]
     = \<lparr>text_lines = [py ''a''], seen_lines = {py ''a''}\<rparr>"
    by blast
  with e m show ?thesis by blast
qed

text \<open>
  C9: every line of the output is whitespace-normalised: it neither begins nor ends
  with whitespace, its only whitespace characters are single spaces (so it has no tab
  and no newline), and it has no two spaces in a row.
\<close>

theorem output_lines_normalised:
  "\<forall>l\<in>set (split_nl (clean_vtt_subtitle U s)).
     (l \<noteq> [] \<longrightarrow> \<not> isspace (hd l) \<and> \<not> isspace (last l)) \<and>
     (\<forall>c\<in>set l. isspace c \<longrightarrow> c = SP) \<and> 9 \<notin> set l \<and> NL \<notin> set l \<and>
     \<not> contains [SP, SP] l"
proof
  fix l
  assume "l \<in> set (split_nl (clean_vtt_subtitle U s))"
  then have "l = [] \<or> l \<in> set (emitted U s)"
    by (simp add: split_clean split: if_splits)
  then show "(l \<noteq> [] \<longrightarrow> \<not> isspace (hd l) \<and> \<not> isspace (last l)) \<and>
     (\<forall>c\<in>set l. isspace c \<longrightarrow> c = SP) \<and> 9 \<notin> set l \<and> NL \<notin> set l \<and>
     \<not> contains [SP, SP] l"
  proof
    assume "l = []"
    then show ?thesis by simp
  next
    assume "l \<in> set (emitted U s)"
    then obtain x where l: "l = clean_line U x"
      by (auto simp: emitted_iff)
    have "9 \<notin> set (clean_line U x)"
      using clean_line_space [of 9 U x] by (auto simp: isspace_def SP_def)
    with l show ?thesis
      by (auto simp: clean_line_hd clean_line_last clean_line_no_double clean_line_no_NL
          dest: clean_line_space)
  qed
qed

theorem output_lines_normalised_witness:
  "clean_vtt_subtitle (\<lambda>c. False) ([9] @ py ''<i>Hello</i>  ,   world '' @ [NL, 160] @ py ''x y'' @ [9])
     = py ''Hello , world'' @ [NL] @ py ''x y'' \<and>
   \<not> contains [SP, SP] (py ''Hello , world'') \<and> 9 \<notin> set (py ''x y'')"
proof -
  have e: "clean_vtt_subtitle (\<lambda>c. False)
      ([9] @ py ''<i>Hello</i>  ,   world '' @ [NL, 160] @ py ''x y'' @ [9])
     = py ''Hello , world'' @ [NL] @ py ''x y''"
    by (simp add: clean_vtt_subtitle_def run_loop_def step_def py_def is_header_def
        is_timing_def is_blank_def clean_line_def startswith_def strip_def isspace_def
        LT_def GT_def NL_def SP_def SLASH_def match_word_run_def isword_def)
  have "split_nl (py ''Hello , world'' @ [NL] @ py ''x y'') = [py ''Hello , world'', py ''x y'']"
    by (simp add: py_def NL_def)
  with e output_lines_normalised [of "\<lambda>c. False"
      "[9] @ py ''<i>Hello</i>  ,   world '' @ [NL, 160] @ py ''x y'' @ [9]"]
  show ?thesis by simp
qed

text \<open>
  C10: for the empty input, and for every input whose lines all consist of whitespace
  only, \<open>clean_vtt_subtitle\<close> returns the empty string.
\<close>

theorem blank_input_gives_empty_output:
  "clean_vtt_subtitle U [] = [] \<and>
   ((\<forall>l\<in>set (split_nl s). \<forall>c\<in>set l. isspace c) \<longrightarrow> clean_vtt_subtitle U s = [])"
proof
  have "emitted U [] = []"
    by (simp add: emitted_Nil_iff discarded_def is_blank_def strip_def)
  then show "clean_vtt_subtitle U [] = []"
    by (simp add: clean_eq)
next
  show "(\<forall>l\<in>set (split_nl s). \<forall>c\<in>set l. isspace c) \<longrightarrow> clean_vtt_subtitle U s = []"
  proof
    assume "\<forall>l\<in>set (split_nl s). \<forall>c\<in>set l. isspace c"
    then have "emitted U s = []"
      by (simp add: emitted_Nil_iff discarded_def is_blank_def strip_Nil_iff)
    then show "clean_vtt_subtitle U s = []"
      by (simp add: clean_eq)
  qed
qed

theorem blank_input_gives_empty_output_witness:
  "clean_vtt_subtitle (\<lambda>c. False) [32, 9, 10, 10, 160, 13] = []"
proof -
  have h: "\<forall>l\<in>set (split_nl [32, 9, 10, 10, 160, 13]). \<forall>c\<in>set l. isspace c"
    by (simp add: NL_def isspace_def)
  with blank_input_gives_empty_output [of "\<lambda>c. False" "[32, 9, 10, 10, 160, 13]"]
  show ?thesis by blast
qed

end
